theory Spec2Isabelle
  imports Main
begin

section \<open>The FilePath class of file\_path.hpp\<close>

text \<open>
  A shallow embedding of the string-processing part of class \<open>FilePath\<close>: the private
  helpers \<open>split\<close> and \<open>set\<close>, the serialiser \<open>to_str\<close>, composition
  \<open>operator/\<close> and the derivations \<open>empty\<close>, \<open>filename\<close> and \<open>parent_path\<close>.
  A \<open>std::string\<close> is a \<open>string\<close> (a list of 8-bit characters), a
  \<open>std::vector<std::string>\<close> is a \<open>string list\<close>, and a \<open>std::size_t\<close> is a
  natural number below \<open>2 ^ 64\<close>. Exceptions, and the one call whose behaviour the C++
  standard leaves undefined, are values of type \<open>error\<close>.
\<close>

subsection \<open>Data model\<close>

datatype Platform = UNIX | WINDOWS

text \<open>
  The enumerator \<open>NATIVE\<close> is an alias of \<open>UNIX\<close> or of \<open>WINDOWS\<close>, chosen by the
  preprocessor. Functions of the source that read it take it as the parameter \<open>native\<close>.
\<close>

record FilePath =
  path :: "string list"
  is_absolute :: bool
  platform :: Platform

datatype error =
    ExpectedRelativePath
  | ExpectedSameType
  | InternalError int
  | OutOfRange
  | PopBackOnEmpty

text \<open>
  \<open>ExpectedRelativePath\<close> and \<open>ExpectedSameType\<close> are the two \<open>std::runtime_error\<close>s
  of \<open>operator/\<close>; \<open>InternalError\<close> is the one of \<open>make_absolute\<close> and carries the
  code of the operating system; \<open>OutOfRange\<close> is the \<open>std::out_of_range\<close> of
  \<open>std::string::substr\<close>; \<open>PopBackOnEmpty\<close> stands for \<open>std::string::pop_back\<close> called
  on an empty string, which has no defined behaviour.
\<close>

definition FilePath_default :: "Platform \<Rightarrow> FilePath" where
  "FilePath_default native = \<lparr>path = [], is_absolute = False, platform = native\<rparr>"

subsection \<open>The operations of std::string that the class uses\<close>

definition backslash :: char where
  "backslash = CHR 0x5C"

definition npos :: nat where
  "npos = 2 ^ 64 - 1"

definition size_sub :: "nat \<Rightarrow> nat \<Rightarrow> nat" where
  \<comment> \<open>subtraction of two \<open>std::size_t\<close> values, modulo \<open>2 ^ 64\<close>\<close>
  "size_sub a b = (a + 2 ^ 64 - b) mod 2 ^ 64"

function find_first_of :: "string \<Rightarrow> string \<Rightarrow> nat \<Rightarrow> nat" where
  "find_first_of origin delim pos =
     (if pos < length origin
      then (if origin ! pos \<in> set delim then pos
            else find_first_of origin delim (pos + 1))
      else npos)"
  by pat_completeness auto
termination
  by (relation "measure (\<lambda>(origin, delim, pos). length origin - pos)") auto

declare find_first_of.simps [simp del]

definition substr :: "string \<Rightarrow> nat \<Rightarrow> nat \<Rightarrow> error + string" where
  "substr s pos len =
     (if length s < pos then Inl OutOfRange else Inr (take len (drop pos s)))"

definition erase :: "string \<Rightarrow> nat \<Rightarrow> nat \<Rightarrow> string" where
  \<comment> \<open>only called as \<open>erase(0, 3)\<close>, where the position is in range\<close>
  "erase s pos len = take pos s @ drop (pos + len) s"

definition pop_back :: "string \<Rightarrow> error + string" where
  "pop_back s = (if s = [] then Inl PopBackOnEmpty else Inr (butlast s))"

definition isalpha :: "char \<Rightarrow> bool" where
  \<comment> \<open>\<open>std::isalpha\<close> in the C locale\<close>
  "isalpha c =
     ((65 \<le> (of_char c :: nat) \<and> (of_char c :: nat) \<le> 90) \<or>
      (97 \<le> (of_char c :: nat) \<and> (of_char c :: nat) \<le> 122))"

subsection \<open>split\<close>

text \<open>
  The \<open>while\<close> loop of \<open>split\<close>, on its three variables \<open>result\<close>, \<open>last_pos\<close> and
  \<open>find_pos\<close>. The increment \<open>last_pos++\<close> is only reached with
  \<open>last_pos \<noteq> npos\<close>, so it does not wrap.
\<close>

function split_loop ::
  "string \<Rightarrow> string \<Rightarrow> string list \<Rightarrow> nat \<Rightarrow> nat \<Rightarrow> error + string list" where
  "split_loop origin delim result last_pos find_pos =
     (if last_pos \<noteq> npos then
        (case (if find_pos \<noteq> last_pos
               then (case substr origin last_pos (size_sub find_pos last_pos) of
                       Inl e \<Rightarrow> Inl e
                     | Inr s \<Rightarrow> Inr (result @ [s]))
               else Inr result) of
           Inl e \<Rightarrow> Inl e
         | Inr result' \<Rightarrow>
             (if find_pos = npos \<or> find_pos = size_sub (length origin) 1
              then Inr result'
              else split_loop origin delim result' (find_pos + 1)
                     (find_first_of origin delim (find_pos + 1))))
      else Inr result)"
  by pat_completeness auto
termination
proof (relation "measure (\<lambda>(origin, delim, result, last_pos, find_pos).
          if find_pos = npos then 0
          else if last_pos \<le> find_pos \<and> find_pos < length origin
               then 1 + (length origin - find_pos)
               else length origin + 2)")
  show "wf (measure (\<lambda>(origin, delim, result, last_pos, find_pos).
          if find_pos = npos then 0
          else if last_pos \<le> find_pos \<and> find_pos < length origin
               then 1 + (length origin - find_pos)
               else length origin + 2))"
    by simp
next
  fix origin delim :: string and result :: "string list" and last_pos find_pos :: nat
    and x :: "error + string list" and result' :: "string list"
  assume "last_pos \<noteq> npos" and "\<not> (find_pos = npos \<or> find_pos = size_sub (length origin) 1)"
  then have fp: "find_pos \<noteq> npos"
    by simp
  have range: "find_first_of origin delim pos = npos \<or>
      (pos \<le> find_first_of origin delim pos \<and> find_first_of origin delim pos < length origin)"
    for pos
  proof (induction origin delim pos rule: find_first_of.induct)
    case (1 origin delim pos)
    then show ?case
      by (cases "pos < length origin"; cases "origin ! pos \<in> set delim")
        (auto simp add: find_first_of.simps [of origin delim pos])
  qed
  from fp range [of "find_pos + 1"]
  show "((origin, delim, result', find_pos + 1, find_first_of origin delim (find_pos + 1)),
         (origin, delim, result, last_pos, find_pos))
        \<in> measure (\<lambda>(origin, delim, result, last_pos, find_pos).
          if find_pos = npos then 0
          else if last_pos \<le> find_pos \<and> find_pos < length origin
               then 1 + (length origin - find_pos)
               else length origin + 2)"
    by auto
qed

declare split_loop.simps [simp del]

definition split :: "string \<Rightarrow> string \<Rightarrow> error + string list" where
  "split origin delim = split_loop origin delim [] 0 (find_first_of origin delim 0)"

subsection \<open>set\<close>

definition set_path :: "string \<Rightarrow> Platform \<Rightarrow> error + FilePath" where
  "set_path path_str plat =
     (if plat = WINDOWS then
        (let tmp = path_str in
         if 3 \<le> length tmp \<and> (of_char (tmp ! 0) :: nat) < 0x80 \<and> isalpha (tmp ! 0) \<and>
            tmp ! 1 = CHR '':'' \<and> (tmp ! 2 = backslash \<or> tmp ! 2 = CHR ''/'')
         then
           (case substr tmp 0 2 of
              Inl e \<Rightarrow> Inl e
            | Inr drive \<Rightarrow>
                (case split (erase tmp 0 3) [CHR ''/'', backslash] of
                   Inl e \<Rightarrow> Inl e
                 | Inr splited \<Rightarrow>
                     Inr \<lparr>path = [drive] @ splited, is_absolute = True, platform = plat\<rparr>))
         else
           (case split tmp [CHR ''/'', backslash] of
              Inl e \<Rightarrow> Inl e
            | Inr splited \<Rightarrow>
                Inr \<lparr>path = [] @ splited, is_absolute = False, platform = plat\<rparr>))
      else
        (case split path_str ''/'' of
           Inl e \<Rightarrow> Inl e
         | Inr segs \<Rightarrow>
             Inr \<lparr>path = segs,
                  is_absolute = (path_str \<noteq> [] \<and> path_str ! 0 = CHR ''/''),
                  platform = plat\<rparr>))"

subsection \<open>to\_str\<close>

definition to_str :: "FilePath \<Rightarrow> Platform \<Rightarrow> error + string" where
  "to_str this plat =
     (let ss0 = (if is_absolute this
                 then (if platform this = UNIX then ''/'' else [])
                 else []);
          ss = foldl (\<lambda>acc p. if plat = UNIX then acc @ p @ ''/''
                               else acc @ p @ [backslash]) ss0 (path this)
      in pop_back ss)"

subsection \<open>operator/\<close>

definition operator_div :: "FilePath \<Rightarrow> FilePath \<Rightarrow> error + FilePath" where
  "operator_div this other =
     (if is_absolute other then Inl ExpectedRelativePath
      else if platform this \<noteq> platform other then Inl ExpectedSameType
      else Inr (this\<lparr>path := foldl (\<lambda>acc p. acc @ [p]) (path this) (path other)\<rparr>))"

subsection \<open>empty, filename, make\_absolute and parent\_path\<close>

definition empty_path :: "FilePath \<Rightarrow> bool" where
  "empty_path this = (path this = [])"

definition filename :: "FilePath \<Rightarrow> string" where
  "filename this = (if empty_path this then [] else last (path this))"

text \<open>
  \<open>make_absolute\<close> hands the serialised path to the operating system (\<open>realpath\<close> or
  \<open>GetFullPathNameA\<close>), which is the parameter \<open>resolve\<close> here: it answers with an error
  code or with the resolved string, and the answer is parsed in the native syntax.
\<close>

definition make_absolute ::
  "Platform \<Rightarrow> (string \<Rightarrow> int + string) \<Rightarrow> FilePath \<Rightarrow> error + FilePath" where
  "make_absolute native resolve this =
     (case to_str this native of
        Inl e \<Rightarrow> Inl e
      | Inr s \<Rightarrow>
          (case resolve s of
             Inl errno \<Rightarrow> Inl (InternalError errno)
           | Inr tmp \<Rightarrow> set_path tmp native))"

definition parent_path ::
  "Platform \<Rightarrow> (string \<Rightarrow> int + string) \<Rightarrow> FilePath \<Rightarrow> error + FilePath" where
  "parent_path native resolve this =
     (let result = this;
          result' =
            (if \<not> empty_path result \<and> last (path result) \<noteq> ''.'' \<and>
                last (path result) \<noteq> ''..''
             then result\<lparr>path := butlast (path result)\<rparr>
             else result\<lparr>path := path result @ [''..'']\<rparr>)
      in if is_absolute this then make_absolute native resolve result'
         else Inr result')"

subsection \<open>The splitter and the serialiser as the specification words them\<close>

text \<open>
  The specification describes the splitter as producing the maximal substrings without a
  separator, in order, and never an empty one: \<open>spec_tokens\<close> reads the string from left
  to right, with the segment read so far in \<open>w\<close>. It describes serialisation as a prefix
  followed by the segments joined with the separator of the target syntax. These
  definitions follow its words, not the code; \<open>split\<close> and \<open>to_str\<close> are compared with
  them below.
\<close>

fun spec_tokens :: "string \<Rightarrow> string \<Rightarrow> string \<Rightarrow> string list" where
  "spec_tokens delim w [] = (if w = [] then [] else [w])"
| "spec_tokens delim w (x # xs) =
     (if x \<in> set delim then (if w = [] then [] else [w]) @ spec_tokens delim [] xs
      else spec_tokens delim (w @ [x]) xs)"

definition spec_split :: "string \<Rightarrow> string \<Rightarrow> string list" where
  "spec_split origin delim = spec_tokens delim [] origin"

definition spec_separator :: "Platform \<Rightarrow> char" where
  "spec_separator target = (case target of UNIX \<Rightarrow> CHR ''/'' | WINDOWS \<Rightarrow> backslash)"

fun spec_join :: "char \<Rightarrow> string list \<Rightarrow> string" where
  "spec_join sep [] = []"
| "spec_join sep [p] = p"
| "spec_join sep (p # q # ps) = p @ [sep] @ spec_join sep (q # ps)"

section \<open>Properties\<close>

subsection \<open>Auxiliary facts\<close>

lemmas string_ops =
  substr_def size_sub_def npos_def erase_def isalpha_def backslash_def pop_back_def

lemmas split_eval = split_def split_loop.simps find_first_of.simps string_ops

lemma find_first_of_range:
  "find_first_of origin delim pos = npos \<or>
   (pos \<le> find_first_of origin delim pos \<and> find_first_of origin delim pos < length origin)"
proof (induction origin delim pos rule: find_first_of.induct)
  case (1 origin delim pos)
  then show ?case
    by (cases "pos < length origin"; cases "origin ! pos \<in> set delim")
      (auto simp add: find_first_of.simps [of origin delim pos])
qed

lemma find_first_of_here:
  "pos < length origin \<Longrightarrow> origin ! pos \<in> set delim \<Longrightarrow> find_first_of origin delim pos = pos"
  by (simp add: find_first_of.simps [of origin delim pos])

lemma wrap_sub:
  fixes a b m :: nat
  assumes "b \<le> a" and "a < m"
  shows "(a + m - b) mod m = a - b"
proof -
  from assms(1) have "a + m - b = (a - b) + m" by simp
  then have "(a + m - b) mod m = (a - b) mod m" by simp
  also from assms(2) have "\<dots> = a - b" by simp
  finally show ?thesis .
qed

lemma size_sub_exact: "b \<le> a \<Longrightarrow> a \<le> npos \<Longrightarrow> size_sub a b = a - b"
  unfolding size_sub_def npos_def by (rule wrap_sub) simp_all

lemma size_sub_one: "0 < n \<Longrightarrow> n \<le> npos \<Longrightarrow> size_sub n 1 = n - 1"
  by (rule size_sub_exact) simp_all

text \<open>\<open>split\<close> never throws: \<open>substr\<close> is always called with a position in range.\<close>

lemma split_loop_no_error:
  "last_pos \<le> length origin \<Longrightarrow> find_pos = npos \<or> find_pos < length origin \<Longrightarrow>
   \<exists>r. split_loop origin delim result last_pos find_pos = Inr r"
proof (induction origin delim result last_pos find_pos rule: split_loop.induct)
  case (1 origin delim result last_pos find_pos)
  let ?pushed = "if find_pos \<noteq> last_pos
      then result @ [take (size_sub find_pos last_pos) (drop last_pos origin)] else result"
  have body: "(if find_pos \<noteq> last_pos
               then (case substr origin last_pos (size_sub find_pos last_pos) of
                       Inl e \<Rightarrow> Inl e
                     | Inr s \<Rightarrow> Inr (result @ [s]))
               else Inr result) = Inr ?pushed"
    using "1.prems"(1) by (simp add: substr_def)
  show ?case
  proof (cases "last_pos \<noteq> npos \<and> \<not> (find_pos = npos \<or> find_pos = size_sub (length origin) 1)")
    case False
    then show ?thesis
      using body by (auto simp add: split_loop.simps [of origin delim result last_pos find_pos])
  next
    case True
    with "1.prems"(2) have "find_pos + 1 \<le> length origin" by simp
    with True body find_first_of_range [of origin delim "find_pos + 1"]
    have "\<exists>r. split_loop origin delim ?pushed (find_pos + 1)
             (find_first_of origin delim (find_pos + 1)) = Inr r"
      by (intro "1.IH") auto
    with True body show ?thesis
      by (simp add: split_loop.simps [of origin delim result last_pos find_pos])
  qed
qed

lemma split_no_error: "\<exists>segs. split origin delim = Inr segs"
  unfolding split_def
  using find_first_of_range [of origin delim 0] by (intro split_loop_no_error) auto

text \<open>On a string of separators the loop walks to the last character and pushes nothing.\<close>

lemma split_loop_separators_only:
  assumes "\<forall>i<length origin. origin ! i \<in> set delim" and "length origin \<le> npos"
  shows "k < length origin \<Longrightarrow> split_loop origin delim [] k k = Inr []"
proof (induction "length origin - k" arbitrary: k)
  case 0
  then show ?case by simp
next
  case (Suc d)
  from Suc.prems assms(2) have k_npos: "k \<noteq> npos" by simp
  from Suc.prems have "0 < length origin" by auto
  with assms(2) have last: "size_sub (length origin) 1 = length origin - 1"
    by (rule size_sub_one [rotated])
  show ?case
  proof (cases "k = length origin - 1")
    case True
    with k_npos last show ?thesis
      by (subst split_loop.simps) simp
  next
    case False
    with Suc.prems have next_in: "k + 1 < length origin" by simp
    with assms(1) have "find_first_of origin delim (k + 1) = k + 1"
      by (simp add: find_first_of_here)
    moreover from Suc.hyps(2) next_in have "split_loop origin delim [] (k + 1) (k + 1) = Inr []"
      by (intro Suc.hyps(1)) simp_all
    ultimately show ?thesis
      using k_npos last False
      by (subst split_loop.simps) simp
  qed
qed

lemma split_separators_only:
  assumes "origin \<noteq> []" and "set origin \<subseteq> set delim" and "length origin \<le> npos"
  shows "split origin delim = Inr []"
proof -
  from assms(2) have all: "\<forall>i<length origin. origin ! i \<in> set delim"
    by (auto simp add: subset_iff)
  with assms(1) have "find_first_of origin delim 0 = 0"
    by (simp add: find_first_of_here)
  moreover from assms(1) have "0 < length origin" by simp
  ultimately show ?thesis
    using split_loop_separators_only [OF all assms(3), of 0] by (simp add: split_def)
qed

text \<open>
  Splitting a string that was joined: the loop pushes one segment of the joined string in
  each round.
\<close>

lemma find_first_of_end: "length origin \<le> pos \<Longrightarrow> find_first_of origin delim pos = npos"
  by (simp add: find_first_of.simps [of origin delim pos])

lemma find_first_of_skip:
  "set p \<inter> set delim = {} \<Longrightarrow>
   find_first_of (done @ p @ rest) delim (length done)
     = find_first_of (done @ p @ rest) delim (length done + length p)"
proof (induction p arbitrary: "done")
  case Nil
  then show ?case by simp
next
  case (Cons x p)
  from Cons.prems have x: "x \<notin> set delim" and rest: "set p \<inter> set delim = {}"
    by auto
  have "find_first_of (done @ (x # p) @ rest) delim (length done)
      = find_first_of (done @ (x # p) @ rest) delim (length done + 1)"
    using x by (simp add: find_first_of.simps [of _ delim "length done"])
  also have "\<dots> = find_first_of ((done @ [x]) @ p @ rest) delim (length (done @ [x]))"
    by simp
  also have "\<dots> = find_first_of ((done @ [x]) @ p @ rest) delim (length (done @ [x]) + length p)"
    using rest by (rule Cons.IH)
  finally show ?case by simp
qed


lemma split_loop_joined:
  "c \<in> set delim \<Longrightarrow> segs \<noteq> [] \<Longrightarrow>
   \<forall>seg\<in>set segs. seg \<noteq> [] \<and> set seg \<inter> set delim = {} \<Longrightarrow>
   length (done @ spec_join c segs) \<le> npos \<Longrightarrow>
   split_loop (done @ spec_join c segs) delim result (length done)
      (find_first_of (done @ spec_join c segs) delim (length done))
     = Inr (result @ segs)"
proof (induction c segs arbitrary: "done" result rule: spec_join.induct)
  case (1 sep)
  then show ?case by simp
next
  case (2 sep p)
  let ?origin = "done @ p"
  from "2.prems" have p: "p \<noteq> []" "set p \<inter> set delim = {}" by simp_all
  from p(2) have "find_first_of (done @ p @ []) delim (length done)
      = find_first_of (done @ p @ []) delim (length done + length p)"
    by (rule find_first_of_skip)
  then have found: "find_first_of ?origin delim (length done) = npos"
    by (simp add: find_first_of_end)
  from p(1) obtain x p' where "p = x # p'"
    by (cases p) simp_all
  with "2.prems"(4) have k: "length done < npos" "length p \<le> npos - length done"
    by simp_all
  then have "size_sub npos (length done) = npos - length done"
    by (intro size_sub_exact) simp_all
  with k have pushed: "substr ?origin (length done) (size_sub npos (length done)) = Inr p"
    by (simp add: substr_def)
  from k(1) have "length done \<noteq> npos" "npos \<noteq> length done"
    by simp_all
  then show ?case
    using found pushed
    by (subst split_loop.simps) simp
next
  case (3 sep p q ps)
  let ?rest = "spec_join sep (q # ps)"
  let ?origin = "done @ p @ [sep] @ ?rest"
  let ?f = "length done + length p"
  from "3.prems" have p: "p \<noteq> []" "set p \<inter> set delim = {}" and q: "q \<noteq> []"
    and sep: "sep \<in> set delim" by simp_all
  from p(1) obtain x p' where p_cons: "p = x # p'"
    by (cases p) simp_all
  from q obtain y rest' where rest: "?rest = y # rest'"
    by (cases q; cases ps) simp_all
  from p(2) have "find_first_of (done @ p @ ([sep] @ ?rest)) delim (length done)
      = find_first_of (done @ p @ ([sep] @ ?rest)) delim ?f"
    by (rule find_first_of_skip)
  also have "\<dots> = ?f"
    using sep by (intro find_first_of_here) (simp_all add: nth_append)
  finally have found: "find_first_of ?origin delim (length done) = ?f"
    by simp
  from "3.prems"(4) have bound: "?f + 2 \<le> length ?origin" "length ?origin \<le> npos"
    by (simp_all add: rest)
  then have "size_sub ?f (length done) = ?f - length done"
    by (intro size_sub_exact) simp_all
  then have pushed: "substr ?origin (length done) (size_sub ?f (length done)) = Inr p"
    by (simp add: substr_def)
  from bound have last: "size_sub (length ?origin) 1 = length ?origin - 1"
    by (intro size_sub_exact) simp_all
  have "split_loop ((done @ p @ [sep]) @ ?rest) delim (result @ [p]) (length (done @ p @ [sep]))
        (find_first_of ((done @ p @ [sep]) @ ?rest) delim (length (done @ p @ [sep])))
       = Inr ((result @ [p]) @ q # ps)"
    using "3.prems" by (intro "3.IH") simp_all
  then have step: "split_loop ?origin delim (result @ [p]) (?f + 1)
        (find_first_of ?origin delim (?f + 1)) = Inr (result @ p # q # ps)"
    by simp
  have "length p = Suc (length p')"
    by (simp add: p_cons)
  with bound have neqs: "length done \<noteq> npos" "?f \<noteq> length done" "?f \<noteq> npos"
      "?f \<noteq> length ?origin - 1"
    by arith+
  show ?case
    using pushed last step found neqs
    by (subst split_loop.simps) (simp del: append_assoc)
qed

text \<open>The two loops that append: the segments of \<open>operator/\<close> and the stream of \<open>to_str\<close>.\<close>

lemma push_back_loop: "foldl (\<lambda>acc p. acc @ [p]) xs ys = xs @ ys"
  by (induction ys arbitrary: xs) simp_all

lemma foldl_append_separator:
  "foldl (\<lambda>acc p. acc @ p @ [c]) ss0 segs = ss0 @ concat (map (\<lambda>p. p @ [c]) segs)"
  by (induction segs arbitrary: ss0) simp_all

lemma butlast_separated:
  "segs \<noteq> [] \<Longrightarrow> butlast (concat (map (\<lambda>p. p @ [c]) segs)) = spec_join c segs"
  by (induction c segs rule: spec_join.induct) (simp_all add: butlast_append)

subsection \<open>The splitter, and the round trip in the UNIX syntax\<close>

lemma spec_tokens_word:
  "set w \<inter> set delim = {} \<Longrightarrow>
   spec_tokens delim u (w @ xs) = spec_tokens delim (u @ w) xs"
  by (induction w arbitrary: u) auto

lemma spec_tokens_last_word:
  "set w \<inter> set delim = {} \<Longrightarrow> w \<noteq> [] \<Longrightarrow> spec_tokens delim [] w = [w]"
  using spec_tokens_word [of w delim "[]" "[]"] by simp

lemma spec_tokens_word_sep:
  "set w \<inter> set delim = {} \<Longrightarrow> w \<noteq> [] \<Longrightarrow> x \<in> set delim \<Longrightarrow>
   spec_tokens delim [] (w @ x # xs) = w # spec_tokens delim [] xs"
  using spec_tokens_word [of w delim "[]" "x # xs"] by simp

text \<open>What \<open>find_first_of\<close> returns: the first separator at or after the position.\<close>

lemma find_first_of_npos:
  "find_first_of origin delim pos = npos \<Longrightarrow> length origin \<le> npos \<Longrightarrow>
   set (drop pos origin) \<inter> set delim = {}"
proof (induction origin delim pos rule: find_first_of.induct)
  case (1 origin delim pos)
  show ?case
  proof (cases "pos < length origin")
    case False
    then show ?thesis by simp
  next
    case True
    with "1.prems" have here: "origin ! pos \<notin> set delim"
      and later: "find_first_of origin delim (pos + 1) = npos"
      by (auto simp add: find_first_of.simps [of origin delim pos] split: if_splits)
    from True here later "1.prems"(2) have "set (drop (pos + 1) origin) \<inter> set delim = {}"
      by (intro "1.IH") simp_all
    moreover from True have "drop pos origin = origin ! pos # drop (pos + 1) origin"
      by (simp add: Cons_nth_drop_Suc)
    ultimately show ?thesis
      using here by simp
  qed
qed

lemma find_first_of_found:
  "find_first_of origin delim pos = f \<Longrightarrow> f < length origin \<Longrightarrow> length origin \<le> npos \<Longrightarrow>
   pos \<le> f \<and> origin ! f \<in> set delim \<and>
   set (take (f - pos) (drop pos origin)) \<inter> set delim = {}"
proof (induction origin delim pos rule: find_first_of.induct)
  case (1 origin delim pos)
  from "1.prems" have f_npos: "f \<noteq> npos" by simp
  with "1.prems"(1) have inside: "pos < length origin"
    by (auto simp add: find_first_of.simps [of origin delim pos] split: if_splits)
  show ?case
  proof (cases "origin ! pos \<in> set delim")
    case True
    with inside "1.prems" show ?thesis
      by (simp add: find_first_of.simps [of origin delim pos])
  next
    case False
    with inside "1.prems"(1) have later: "find_first_of origin delim (pos + 1) = f"
      by (simp add: find_first_of.simps [of origin delim pos])
    with inside False "1.prems"(2,3)
    have ih: "pos + 1 \<le> f \<and> origin ! f \<in> set delim \<and>
        set (take (f - (pos + 1)) (drop (pos + 1) origin)) \<inter> set delim = {}"
      by (intro "1.IH") simp_all
    then obtain n where n: "f - pos = Suc n" "f - (pos + 1) = n"
      by (cases "f - pos") simp_all
    from inside have "drop pos origin = origin ! pos # drop (pos + 1) origin"
      by (simp add: Cons_nth_drop_Suc)
    with n have "take (f - pos) (drop pos origin)
        = origin ! pos # take (f - (pos + 1)) (drop (pos + 1) origin)"
      by simp
    with ih False show ?thesis
      by simp
  qed
qed

text \<open>
  Apart from the empty string, the loop of \<open>split\<close> computes the tokens of the rest of
  the string and appends them to \<open>result\<close>.
\<close>

lemma split_loop_tokens:
  assumes "length origin \<le> npos"
  shows "k < length origin \<Longrightarrow>
    split_loop origin delim result k (find_first_of origin delim k)
      = Inr (result @ spec_tokens delim [] (drop k origin))"
proof (induction "length origin - k" arbitrary: k result rule: less_induct)
  case less
  let ?f = "find_first_of origin delim k"
  from less.prems assms have k: "k \<noteq> npos" "k \<le> npos" by simp_all
  from less.prems have "0 < length origin" by auto
  with assms have last: "size_sub (length origin) 1 = length origin - 1"
    by (intro size_sub_one)
  from less.prems have unfold_drop: "drop k origin = origin ! k # drop (k + 1) origin"
    by (simp add: Cons_nth_drop_Suc)
  consider (none) "?f = npos" | (found) "?f \<noteq> npos" "k \<le> ?f" "?f < length origin"
    using find_first_of_range [of origin delim k] by auto
  then show ?case
  proof cases
    case none
    with assms have free: "set (drop k origin) \<inter> set delim = {}"
      by (intro find_first_of_npos)
    from less.prems have filled: "drop k origin \<noteq> []" by simp
    from k(2) have "size_sub npos k = npos - k"
      by (intro size_sub_exact) simp_all
    moreover from less.prems assms have "length origin - k \<le> npos - k" by simp
    ultimately have "substr origin k (size_sub npos k) = Inr (drop k origin)"
      using less.prems by (simp add: substr_def)
    with none k(1) free filled show ?thesis
      by (subst split_loop.simps) (simp add: spec_tokens_last_word)
  next
    case found
    from found(3) assms have sep: "origin ! ?f \<in> set delim"
      and free: "set (take (?f - k) (drop k origin)) \<inter> set delim = {}"
      using find_first_of_found [of origin delim k ?f] by simp_all
    from found(2,3) assms have "size_sub ?f k = ?f - k"
      by (intro size_sub_exact) simp_all
    with less.prems have pushed: "substr origin k (size_sub ?f k) = Inr (take (?f - k) (drop k origin))"
      by (simp add: substr_def)
    from found(3) have split_at: "drop k origin
        = take (?f - k) (drop k origin) @ origin ! ?f # drop (?f + 1) origin"
      using found(2)
      by (metis Cons_nth_drop_Suc Suc_eq_plus1 append_take_drop_id drop_drop le_add_diff_inverse2)
    define result' where "result' = (if ?f \<noteq> k then result @ [take (?f - k) (drop k origin)] else result)"
    with pushed have body: "(if ?f \<noteq> k
               then (case substr origin k (size_sub ?f k) of
                       Inl e \<Rightarrow> Inl e
                     | Inr s \<Rightarrow> Inr (result @ [s]))
               else Inr result) = Inr result'"
      by simp
    have tokens: "result @ spec_tokens delim [] (drop k origin)
        = result' @ spec_tokens delim [] (drop (?f + 1) origin)"
    proof (cases "?f = k")
      case True
      with sep unfold_drop show ?thesis by (simp add: result'_def)
    next
      case False
      with found(2,3) less.prems have "take (?f - k) (drop k origin) \<noteq> []" by simp
      with free sep False show ?thesis
        by (subst split_at) (simp add: spec_tokens_word_sep result'_def)
    qed
    show ?thesis
    proof (cases "?f = length origin - 1")
      case True
      then have "drop (?f + 1) origin = []" by simp
      with tokens have "result @ spec_tokens delim [] (drop k origin) = result'"
        by simp
      with True [symmetric] found(1) k(1) last show ?thesis
        by (subst split_loop.simps) (simp only: body sum.case if_True if_False simp_thms)
    next
      case False
      with found(3) have next_in: "?f + 1 < length origin" by simp
      with found(2) have "split_loop origin delim result' (?f + 1)
          (find_first_of origin delim (?f + 1))
        = Inr (result' @ spec_tokens delim [] (drop (?f + 1) origin))"
        by (intro less.hyps) simp_all
      with tokens False found(1) k(1) last show ?thesis
        by (subst split_loop.simps) (simp only: body sum.case if_True if_False simp_thms)
    qed
  qed
qed


lemma split_refines_spec_split:
  assumes "origin \<noteq> []" and "length origin \<le> npos"
  shows "split origin delim = Inr (spec_split origin delim)"
  using assms split_loop_tokens [of origin 0 delim "[]"]
  by (simp add: split_def spec_split_def)

lemma spec_tokens_segments:
  "set w \<inter> set delim = {} \<Longrightarrow> seg \<in> set (spec_tokens delim w xs) \<Longrightarrow>
   seg \<noteq> [] \<and> set seg \<inter> set delim = {}"
proof (induction xs arbitrary: w)
  case Nil
  then show ?case by (simp split: if_splits)
next
  case (Cons x xs)
  show ?case
  proof (cases "x \<in> set delim")
    case True
    with Cons.prems(2) consider "w \<noteq> []" "seg = w" | "seg \<in> set (spec_tokens delim [] xs)"
      by (auto split: if_splits)
    then show ?thesis
    proof cases
      case 1
      with Cons.prems(1) show ?thesis by simp
    next
      case 2
      with Cons.IH [of "[]"] show ?thesis by simp
    qed
  next
    case False
    with Cons.prems have "set (w @ [x]) \<inter> set delim = {}"
      and "seg \<in> set (spec_tokens delim (w @ [x]) xs)"
      by simp_all
    then show ?thesis by (rule Cons.IH)
  qed
qed

lemma spec_tokens_separators:
  "set xs \<subseteq> set delim \<Longrightarrow> spec_tokens delim w xs = (if w = [] then [] else [w])"
  by (induction xs arbitrary: w) simp_all

lemma spec_tokens_some:
  "\<not> set xs \<subseteq> set delim \<Longrightarrow> spec_tokens delim w xs \<noteq> []"
proof (induction xs arbitrary: w)
  case Nil
  then show ?case by simp
next
  case (Cons x xs)
  show ?case
  proof (cases "x \<in> set delim")
    case True
    with Cons.prems have "\<not> set xs \<subseteq> set delim" by simp
    then have "spec_tokens delim [] xs \<noteq> []" by (rule Cons.IH)
    with True show ?thesis by simp
  next
    case False
    have "spec_tokens delim (w @ [x]) xs \<noteq> []"
    proof (cases "set xs \<subseteq> set delim")
      case True
      then show ?thesis by (simp add: spec_tokens_separators)
    next
      case False
      then show ?thesis by (rule Cons.IH)
    qed
    with False show ?thesis by simp
  qed
qed

lemma length_spec_join_Cons:
  "length (spec_join c (p # ps)) \<le> length p + 1 + length (spec_join c ps)"
  by (cases ps) simp_all

lemma length_spec_join_tokens:
  "length (spec_join c (spec_tokens delim w xs)) \<le> length w + length xs"
proof (induction xs arbitrary: w)
  case Nil
  then show ?case by simp
next
  case (Cons x xs)
  show ?case
  proof (cases "x \<in> set delim")
    case False
    with Cons.IH [of "w @ [x]"] show ?thesis by simp
  next
    case True
    show ?thesis
    proof (cases "w = []")
      case True
      with \<open>x \<in> set delim\<close> Cons.IH [of "[]"] show ?thesis by simp
    next
      case False
      with True have "spec_tokens delim w (x # xs) = w # spec_tokens delim [] xs"
        by simp
      with length_spec_join_Cons [of c w "spec_tokens delim [] xs"] Cons.IH [of "[]"]
      show ?thesis by simp
    qed
  qed
qed

lemma spec_join_first:
  "p \<noteq> [] \<Longrightarrow> spec_join c (p # ps) \<noteq> [] \<and> spec_join c (p # ps) ! 0 = p ! 0"
  by (cases ps; cases p) simp_all

lemma split_joined:
  assumes "c \<in> set delim" and "segs \<noteq> []"
    and "\<forall>seg\<in>set segs. seg \<noteq> [] \<and> set seg \<inter> set delim = {}"
    and "length (spec_join c segs) \<le> npos"
  shows "split (spec_join c segs) delim = Inr segs"
  using split_loop_joined [of c delim segs "[]" "[]"] assms by (simp add: split_def)

lemma split_rooted_joined:
  assumes "c \<in> set delim" and "segs \<noteq> []"
    and "\<forall>seg\<in>set segs. seg \<noteq> [] \<and> set seg \<inter> set delim = {}"
    and "length (c # spec_join c segs) \<le> npos"
  shows "split (c # spec_join c segs) delim = Inr segs"
proof -
  let ?origin = "c # spec_join c segs"
  from assms(2) obtain p ps where segs: "segs = p # ps"
    by (cases segs) simp_all
  with assms(3) have "p \<noteq> []" by simp
  then have "spec_join c segs \<noteq> []"
    using spec_join_first [of p c ps] by (simp add: segs)
  then obtain x rest where joined: "spec_join c segs = x # rest"
    by (cases "spec_join c segs") simp_all
  from assms(1) have first: "find_first_of ?origin delim 0 = 0"
    by (simp add: find_first_of_here)
  from assms(4) have last: "size_sub (length ?origin) 1 = length ?origin - 1"
    by (intro size_sub_one) simp_all
  have "split_loop ([c] @ spec_join c segs) delim [] (length [c])
      (find_first_of ([c] @ spec_join c segs) delim (length [c])) = Inr ([] @ segs)"
    using assms by (intro split_loop_joined) simp_all
  then have step: "split_loop ?origin delim [] (0 + 1) (find_first_of ?origin delim (0 + 1))
      = Inr segs"
    by simp
  have "(0::nat) \<noteq> npos"
    by (simp add: npos_def)
  moreover have "0 \<noteq> length ?origin - 1"
    by (simp add: joined)
  ultimately have "split_loop ?origin delim [] 0 0 = Inr segs"
    using last step by (subst split_loop.simps) (simp del: One_nat_def)
  with first show ?thesis
    by (simp add: split_def)
qed

lemma to_str_stream:
  "to_str this target
     = pop_back ((if is_absolute this then (if platform this = UNIX then ''/'' else []) else [])
                 @ concat (map (\<lambda>p. p @ [spec_separator target]) (path this)))"
  by (cases target) (simp_all add: to_str_def spec_separator_def foldl_append_separator)

text \<open>
  Serialising and parsing in the UNIX syntax returns the value, when the value has a
  segment and its segments are well formed.
\<close>

lemma set_path_to_str_posix:
  assumes "platform v = UNIX" and "path v \<noteq> []"
    and "\<forall>seg\<in>set (path v). seg \<noteq> [] \<and> CHR ''/'' \<notin> set seg"
    and "length (spec_join (CHR ''/'') (path v)) < npos"
  shows "\<exists>str. to_str v UNIX = Inr str \<and> set_path str UNIX = Inr v"
proof -
  let ?joined = "spec_join (CHR ''/'') (path v)"
  let ?str = "(if is_absolute v then ''/'' else []) @ ?joined"
  from assms(3) have segments: "\<forall>seg\<in>set (path v). seg \<noteq> [] \<and> set seg \<inter> set ''/'' = {}"
    by auto
  from assms(2) have "concat (map (\<lambda>p. p @ ''/'') (path v)) \<noteq> []"
    by (cases "path v") simp_all
  with assms(1,2) have serialised: "to_str v UNIX = Inr ?str"
    by (simp add: to_str_stream spec_separator_def pop_back_def butlast_append butlast_separated)
  from assms(2) obtain p ps where segs: "path v = p # ps"
    by (cases "path v") simp_all
  with assms(3) have "p \<noteq> []" and "CHR ''/'' \<notin> set p"
    by simp_all
  then have p: "p \<noteq> []" "p ! 0 \<noteq> CHR ''/''"
    by (auto simp add: neq_Nil_conv)
  with segs spec_join_first [of p "CHR ''/''" ps]
  have first: "?joined \<noteq> []" "?joined ! 0 \<noteq> CHR ''/''"
    by simp_all
  have "set_path ?str UNIX = Inr v"
  proof (cases "is_absolute v")
    case True
    from assms(4) have "length (CHR ''/'' # ?joined) \<le> npos" by simp
    with assms(2) segments have "split (CHR ''/'' # ?joined) ''/'' = Inr (path v)"
      by (intro split_rooted_joined) simp_all
    with True assms(1) show ?thesis
      by (simp add: set_path_def)
  next
    case False
    from assms(4) have "length ?joined \<le> npos" by simp
    with assms(2) segments have "split ?joined ''/'' = Inr (path v)"
      by (intro split_joined) simp_all
    with False assms(1) first show ?thesis
      by (simp add: set_path_def)
  qed
  with serialised show ?thesis by simp
qed


text \<open>
  Parsing a string in the UNIX syntax, serialising the value and parsing again returns
  the value of the first parse, for every string that holds a character other than the
  slash.
\<close>

lemma posix_round_trip:
  assumes "length s < npos" and "\<not> set s \<subseteq> {CHR ''/''}"
  shows "\<exists>v str. set_path s UNIX = Inr v \<and> to_str v UNIX = Inr str \<and>
           set_path str UNIX = Inr v"
proof -
  let ?segs = "spec_split s ''/''"
  let ?v = "\<lparr>path = ?segs, is_absolute = (s \<noteq> [] \<and> s ! 0 = CHR ''/''), platform = UNIX\<rparr>"
  from assms(2) have "s \<noteq> []" by auto
  with assms(1) have "split s ''/'' = Inr ?segs"
    by (intro split_refines_spec_split) simp_all
  then have parsed: "set_path s UNIX = Inr ?v"
    by (simp add: set_path_def)
  from assms(2) have some: "?segs \<noteq> []"
    unfolding spec_split_def by (intro spec_tokens_some) simp
  have segments: "\<forall>seg\<in>set ?segs. seg \<noteq> [] \<and> CHR ''/'' \<notin> set seg"
    using spec_tokens_segments [of "[]" "''/''" _ s] by (auto simp add: spec_split_def)
  have "length (spec_join (CHR ''/'') ?segs) \<le> length s"
    using length_spec_join_tokens [of "CHR ''/''" "''/''" "[]" s] by (simp add: spec_split_def)
  with assms(1) have "length (spec_join (CHR ''/'') (path ?v)) < npos"
    by simp
  with some segments have "\<exists>str. to_str ?v UNIX = Inr str \<and> set_path str UNIX = Inr ?v"
    by (intro set_path_to_str_posix) simp_all
  with parsed show ?thesis by blast
qed

subsection \<open>Parsing\<close>

text \<open>
  C2. The specification has the empty string parse to a value with no segment and
  \<open>is_absolute = False\<close>. The code returns a relative value that holds one segment, the
  empty string: \<open>find_first_of\<close> answers \<open>npos\<close>, which differs from \<open>last_pos = 0\<close>,
  so \<open>split\<close> pushes \<open>substr(0, npos)\<close>. On every other string \<open>split\<close> returns what
  the specification's splitter returns (lemma \<open>split_refines_spec_split\<close>), which has no
  empty segment (lemma \<open>spec_tokens_segments\<close>).
\<close>

theorem set_path_empty_string:
  "set_path '''' UNIX = Inr \<lparr>path = [''''], is_absolute = False, platform = UNIX\<rparr> \<and>
   set_path '''' WINDOWS = Inr \<lparr>path = [''''], is_absolute = False, platform = WINDOWS\<rparr>"
  by (simp add: set_path_def split_eval)

text \<open>
  C4. The drive designator \<open>C:\<close>, a backslash, \<open>Users\<close>, a backslash and \<open>x\<close> parse in
  the WINDOWS syntax to an absolute value with the segments
  \<open>C:\<close>, \<open>Users\<close>, \<open>x\<close>, and \<open>C:\<close> alone to a relative value with the one segment
  \<open>C:\<close>. In general, a string of at least three characters that starts with an ASCII
  letter, a colon and a separator parses to an absolute value whose first segment is its
  first two characters, followed by the split of what comes after the third character on
  both separators.
\<close>

theorem set_path_drive_letter:
  "set_path (''C:'' @ [backslash] @ ''Users'' @ [backslash] @ ''x'') WINDOWS
     = Inr \<lparr>path = [''C:'', ''Users'', ''x''], is_absolute = True, platform = WINDOWS\<rparr> \<and>
   set_path ''C:'' WINDOWS
     = Inr \<lparr>path = [''C:''], is_absolute = False, platform = WINDOWS\<rparr> \<and>
   (3 \<le> length s \<and> (of_char (s ! 0) :: nat) < 0x80 \<and> isalpha (s ! 0) \<and>
    s ! 1 = CHR '':'' \<and> (s ! 2 = backslash \<or> s ! 2 = CHR ''/'') \<longrightarrow>
    (\<exists>segs. split (drop 3 s) [CHR ''/'', backslash] = Inr segs \<and>
       set_path s WINDOWS
         = Inr \<lparr>path = take 2 s # segs, is_absolute = True, platform = WINDOWS\<rparr>))"
proof (intro conjI impI)
  show "set_path (''C:'' @ [backslash] @ ''Users'' @ [backslash] @ ''x'') WINDOWS
     = Inr \<lparr>path = [''C:'', ''Users'', ''x''], is_absolute = True, platform = WINDOWS\<rparr>"
    by (simp add: set_path_def split_eval)
  show "set_path ''C:'' WINDOWS
     = Inr \<lparr>path = [''C:''], is_absolute = False, platform = WINDOWS\<rparr>"
    by (simp add: set_path_def split_eval)
next
  assume drive: "3 \<le> length s \<and> (of_char (s ! 0) :: nat) < 0x80 \<and> isalpha (s ! 0) \<and>
    s ! 1 = CHR '':'' \<and> (s ! 2 = backslash \<or> s ! 2 = CHR ''/'')"
  obtain segs where segs: "split (drop 3 s) [CHR ''/'', backslash] = Inr segs"
    using split_no_error by blast
  from drive segs
  have "set_path s WINDOWS
         = Inr \<lparr>path = take 2 s # segs, is_absolute = True, platform = WINDOWS\<rparr>"
    by (simp add: set_path_def substr_def erase_def)
  with segs
  show "\<exists>segs. split (drop 3 s) [CHR ''/'', backslash] = Inr segs \<and>
       set_path s WINDOWS
         = Inr \<lparr>path = take 2 s # segs, is_absolute = True, platform = WINDOWS\<rparr>"
    by simp
qed

theorem set_path_drive_letter_witness:
  "\<exists>segs. split ''tmp/a.txt'' [CHR ''/'', backslash] = Inr segs \<and>
     set_path ''d:/tmp/a.txt'' WINDOWS
       = Inr \<lparr>path = ''d:'' # segs, is_absolute = True, platform = WINDOWS\<rparr>"
  using set_path_drive_letter [of "''d:/tmp/a.txt''"]
  by (simp add: isalpha_def backslash_def)

text \<open>
  C7, as the specification states it, fails in the WINDOWS syntax: a lone backslash parses
  to a relative value, since only a drive designator makes a WINDOWS path absolute.
\<close>

theorem set_path_backslash_relative:
  "set_path [backslash] WINDOWS
     = Inr \<lparr>path = [], is_absolute = False, platform = WINDOWS\<rparr> \<and>
   set_path [backslash] WINDOWS
     \<noteq> Inr \<lparr>path = [], is_absolute = True, platform = WINDOWS\<rparr>"
  by (simp add: set_path_def split_eval)

text \<open>
  C7, amended. A non-empty string of slashes parses in the UNIX syntax to an absolute
  value with no segment. A non-empty string of slashes and backslashes parses in the
  WINDOWS syntax to a value with no segment, which is relative. The length of a
  \<open>std::string\<close> is below \<open>npos\<close>.
\<close>

theorem set_path_separators_only:
  assumes "s \<noteq> []" and "length s \<le> npos"
  shows "(set s \<subseteq> {CHR ''/''} \<longrightarrow>
            set_path s UNIX = Inr \<lparr>path = [], is_absolute = True, platform = UNIX\<rparr>) \<and>
         (set s \<subseteq> {CHR ''/'', backslash} \<longrightarrow>
            set_path s WINDOWS = Inr \<lparr>path = [], is_absolute = False, platform = WINDOWS\<rparr>)"
proof (intro conjI impI)
  assume slashes: "set s \<subseteq> {CHR ''/''}"
  with assms have "split s ''/'' = Inr []"
    by (intro split_separators_only) simp_all
  moreover from assms(1) slashes have "s ! 0 = CHR ''/''"
    by (cases s) simp_all
  ultimately show "set_path s UNIX = Inr \<lparr>path = [], is_absolute = True, platform = UNIX\<rparr>"
    using assms(1) by (simp add: set_path_def)
next
  assume seps: "set s \<subseteq> {CHR ''/'', backslash}"
  with assms have "split s [CHR ''/'', backslash] = Inr []"
    by (intro split_separators_only) simp_all
  moreover from assms(1) seps have "s ! 0 = CHR ''/'' \<or> s ! 0 = backslash"
    by (cases s) simp_all
  then have "\<not> isalpha (s ! 0)"
    by (auto simp add: isalpha_def backslash_def)
  ultimately show "set_path s WINDOWS = Inr \<lparr>path = [], is_absolute = False, platform = WINDOWS\<rparr>"
    by (simp add: set_path_def)
qed

theorem set_path_separators_only_witness:
  "set_path ''//'' UNIX = Inr \<lparr>path = [], is_absolute = True, platform = UNIX\<rparr> \<and>
   set_path ''//'' WINDOWS = Inr \<lparr>path = [], is_absolute = False, platform = WINDOWS\<rparr>"
  using set_path_separators_only [of "''//''"]
  by (simp add: npos_def)

subsection \<open>Serialisation\<close>

text \<open>
  C3. The specification has the value with no segment and \<open>is_absolute = False\<close>
  serialise to the empty string, with nothing trimmed when no separator was appended.
  \<open>to_str\<close> calls \<open>pop_back\<close> whatever the stream holds: on a relative value with no
  segment, and on an absolute WINDOWS value with no segment, the string is empty and the
  call has no defined behaviour; on the UNIX root it removes the leading slash.
\<close>

theorem to_str_no_segments:
  "to_str \<lparr>path = [], is_absolute = False, platform = syntax\<rparr> target = Inl PopBackOnEmpty \<and>
   to_str \<lparr>path = [], is_absolute = True, platform = WINDOWS\<rparr> target = Inl PopBackOnEmpty \<and>
   to_str \<lparr>path = [], is_absolute = True, platform = UNIX\<rparr> target = Inr ''''"
  by (simp add: to_str_def pop_back_def)

text \<open>
  C1. The specification has parsing, serialising and parsing again give the first parse.
  The root \<open>/\<close> parses to the absolute value with no segment, which \<open>to_str\<close> serialises
  to the empty string, and the empty string parses to a relative value. A lone backslash
  in the WINDOWS syntax parses to the relative value with no segment, on which \<open>to_str\<close>
  has no defined behaviour. In the UNIX syntax the strings of slashes are the only ones
  where the round trip breaks (lemma \<open>posix_round_trip\<close>).
\<close>

theorem root_round_trip:
  "set_path ''/'' UNIX = Inr \<lparr>path = [], is_absolute = True, platform = UNIX\<rparr> \<and>
   to_str \<lparr>path = [], is_absolute = True, platform = UNIX\<rparr> UNIX = Inr '''' \<and>
   set_path '''' UNIX = Inr \<lparr>path = [''''], is_absolute = False, platform = UNIX\<rparr> \<and>
   set_path [backslash] WINDOWS = Inr \<lparr>path = [], is_absolute = False, platform = WINDOWS\<rparr> \<and>
   to_str \<lparr>path = [], is_absolute = False, platform = WINDOWS\<rparr> WINDOWS = Inl PopBackOnEmpty"
  by (simp add: set_path_def to_str_def split_eval)

text \<open>
  C9, as the specification states it, fails: the prefix of an absolute UNIX value is a
  slash whatever the target syntax is, so the value \<open>/a/b\<close> serialised for WINDOWS starts
  with a slash and not with a backslash.
\<close>

theorem to_str_prefix_is_slash:
  "to_str \<lparr>path = [''a'', ''b''], is_absolute = True, platform = UNIX\<rparr> WINDOWS
     = Inr (''/a'' @ [backslash] @ ''b'') \<and>
   to_str \<lparr>path = [''a'', ''b''], is_absolute = True, platform = UNIX\<rparr> WINDOWS
     \<noteq> Inr ([backslash] @ ''a'' @ [backslash] @ ''b'')"
  by (simp add: to_str_def pop_back_def backslash_def)

text \<open>
  C9, amended. For every value with at least one segment, \<open>to_str\<close> returns the segments
  joined with the separator of the target syntax (a slash for UNIX, a backslash for
  WINDOWS), after a single slash when the value is absolute and its own syntax is UNIX,
  whatever the target syntax is.
\<close>

theorem to_str_joins_segments:
  assumes "path this \<noteq> []"
  shows "to_str this target
           = Inr ((if is_absolute this \<and> platform this = UNIX then ''/'' else [])
                  @ spec_join (spec_separator target) (path this))"
proof -
  let ?ss0 = "if is_absolute this then (if platform this = UNIX then ''/'' else []) else []"
  let ?c = "spec_separator target"
  have stream: "foldl (\<lambda>acc p. if target = UNIX then acc @ p @ ''/''
                               else acc @ p @ [backslash]) ?ss0 (path this)
                = ?ss0 @ concat (map (\<lambda>p. p @ [?c]) (path this))"
    by (cases target) (simp_all add: spec_separator_def foldl_append_separator)
  from assms have filled: "concat (map (\<lambda>p. p @ [?c]) (path this)) \<noteq> []"
    by (cases "path this") simp_all
  then have "butlast (?ss0 @ concat (map (\<lambda>p. p @ [?c]) (path this)))
               = ?ss0 @ spec_join ?c (path this)"
    using assms by (simp add: butlast_append butlast_separated)
  with filled stream show ?thesis
    by (simp add: to_str_def pop_back_def Let_def)
qed

theorem to_str_joins_segments_witness:
  "to_str \<lparr>path = [''usr'', ''bin''], is_absolute = True, platform = UNIX\<rparr> UNIX
     = Inr ''/usr/bin'' \<and>
   to_str \<lparr>path = [''C:'', ''Users''], is_absolute = True, platform = WINDOWS\<rparr> WINDOWS
     = Inr (''C:'' @ [CHR 0x5C] @ ''Users'') \<and>
   to_str \<lparr>path = [''a'', ''b''], is_absolute = False, platform = WINDOWS\<rparr> UNIX
     = Inr ''a/b''"
  using to_str_joins_segments [of "\<lparr>path = [''usr'', ''bin''], is_absolute = True, platform = UNIX\<rparr>" UNIX]
    to_str_joins_segments [of "\<lparr>path = [''C:'', ''Users''], is_absolute = True, platform = WINDOWS\<rparr>" WINDOWS]
    to_str_joins_segments [of "\<lparr>path = [''a'', ''b''], is_absolute = False, platform = WINDOWS\<rparr>" UNIX]
  by (simp add: spec_separator_def backslash_def)

subsection \<open>Composition\<close>

text \<open>
  C5. \<open>operator/\<close> throws exactly when the right operand is absolute or the two operands
  have different platforms. Both checks come first in the function, before anything is
  built.
\<close>

theorem operator_div_fails_iff:
  "(\<exists>e. operator_div base addend = Inl e) \<longleftrightarrow>
     (is_absolute addend \<or> platform base \<noteq> platform addend)"
  by (simp add: operator_div_def)

theorem operator_div_fails_iff_witness:
  "(\<exists>e. operator_div \<lparr>path = [''usr''], is_absolute = True, platform = UNIX\<rparr>
          \<lparr>path = [''bin''], is_absolute = True, platform = UNIX\<rparr> = Inl e) \<and>
   (\<exists>e. operator_div \<lparr>path = [''usr''], is_absolute = True, platform = UNIX\<rparr>
          \<lparr>path = [''bin''], is_absolute = False, platform = WINDOWS\<rparr> = Inl e) \<and>
   \<not> (\<exists>e. operator_div \<lparr>path = [''usr''], is_absolute = True, platform = UNIX\<rparr>
          \<lparr>path = [''bin''], is_absolute = False, platform = UNIX\<rparr> = Inl e)"
  using operator_div_fails_iff [of "\<lparr>path = [''usr''], is_absolute = True, platform = UNIX\<rparr>"
          "\<lparr>path = [''bin''], is_absolute = True, platform = UNIX\<rparr>"]
        operator_div_fails_iff [of "\<lparr>path = [''usr''], is_absolute = True, platform = UNIX\<rparr>"
          "\<lparr>path = [''bin''], is_absolute = False, platform = WINDOWS\<rparr>"]
        operator_div_fails_iff [of "\<lparr>path = [''usr''], is_absolute = True, platform = UNIX\<rparr>"
          "\<lparr>path = [''bin''], is_absolute = False, platform = UNIX\<rparr>"]
  by simp

text \<open>
  C6. When the right operand is relative and of the same platform, \<open>operator/\<close> returns
  the left operand with the segments of the right one appended in order: platform and
  \<open>is_absolute\<close> are those of the left operand, and no segment is resolved or dropped.
  The witness is the example of the specification, \<open>a/b\<close> composed with \<open>c\<close>.
\<close>

theorem operator_div_concatenates:
  assumes "\<not> is_absolute addend" and "platform base = platform addend"
  shows "operator_div base addend = Inr (base\<lparr>path := path base @ path addend\<rparr>)"
  using assms by (simp add: operator_div_def push_back_loop)

theorem operator_div_concatenates_witness:
  "set_path ''a/b'' UNIX = Inr \<lparr>path = [''a'', ''b''], is_absolute = False, platform = UNIX\<rparr> \<and>
   set_path ''c'' UNIX = Inr \<lparr>path = [''c''], is_absolute = False, platform = UNIX\<rparr> \<and>
   operator_div \<lparr>path = [''a'', ''b''], is_absolute = False, platform = UNIX\<rparr>
       \<lparr>path = [''c''], is_absolute = False, platform = UNIX\<rparr>
     = Inr \<lparr>path = [''a'', ''b'', ''c''], is_absolute = False, platform = UNIX\<rparr>"
proof -
  have parse_ab: "set_path ''a/b'' UNIX
      = Inr \<lparr>path = [''a'', ''b''], is_absolute = False, platform = UNIX\<rparr>"
    by (simp add: set_path_def split_eval)
  have parse_c: "set_path ''c'' UNIX
      = Inr \<lparr>path = [''c''], is_absolute = False, platform = UNIX\<rparr>"
    by (simp add: set_path_def split_eval)
  have "operator_div \<lparr>path = [''a'', ''b''], is_absolute = False, platform = UNIX\<rparr>
       \<lparr>path = [''c''], is_absolute = False, platform = UNIX\<rparr>
     = Inr \<lparr>path = [''a'', ''b'', ''c''], is_absolute = False, platform = UNIX\<rparr>"
    using operator_div_concatenates [of "\<lparr>path = [''c''], is_absolute = False, platform = UNIX\<rparr>"
        "\<lparr>path = [''a'', ''b''], is_absolute = False, platform = UNIX\<rparr>"]
    by simp
  with parse_ab parse_c show ?thesis by simp
qed

subsection \<open>parent\_path\<close>

text \<open>
  C8. On a relative value with at least one segment, \<open>parent_path\<close> removes the last
  segment, unless that segment is \<open>.\<close> or \<open>..\<close>: then it appends \<open>..\<close> and removes
  nothing. On every value whose last segment is \<open>..\<close> it appends another \<open>..\<close>; an
  absolute value then goes through \<open>make_absolute\<close>.
\<close>

theorem parent_path_pops_or_appends:
  assumes "path this \<noteq> []"
  shows "(\<not> is_absolute this \<and> last (path this) \<noteq> ''.'' \<and> last (path this) \<noteq> ''..'' \<longrightarrow>
            parent_path native resolve this = Inr (this\<lparr>path := butlast (path this)\<rparr>)) \<and>
         (\<not> is_absolute this \<and> (last (path this) = ''.'' \<or> last (path this) = ''..'') \<longrightarrow>
            parent_path native resolve this = Inr (this\<lparr>path := path this @ [''..'']\<rparr>)) \<and>
         (last (path this) = ''..'' \<longrightarrow>
            parent_path native resolve this
              = (if is_absolute this
                 then make_absolute native resolve (this\<lparr>path := path this @ [''..'']\<rparr>)
                 else Inr (this\<lparr>path := path this @ [''..'']\<rparr>)))"
  using assms by (auto simp add: parent_path_def empty_path_def Let_def)

theorem parent_path_pops_or_appends_witness:
  "parent_path UNIX (\<lambda>s. Inl 2) \<lparr>path = [''a'', ''b''], is_absolute = False, platform = UNIX\<rparr>
     = Inr \<lparr>path = [''a''], is_absolute = False, platform = UNIX\<rparr> \<and>
   parent_path UNIX (\<lambda>s. Inl 2) \<lparr>path = [''a'', ''..''], is_absolute = False, platform = UNIX\<rparr>
     = Inr \<lparr>path = [''a'', ''..'', ''..''], is_absolute = False, platform = UNIX\<rparr> \<and>
   parent_path UNIX (\<lambda>s. Inl 2) \<lparr>path = [''a'', ''.''], is_absolute = False, platform = UNIX\<rparr>
     = Inr \<lparr>path = [''a'', ''.'', ''..''], is_absolute = False, platform = UNIX\<rparr>"
  using parent_path_pops_or_appends [of "\<lparr>path = [''a'', ''b''], is_absolute = False, platform = UNIX\<rparr>" UNIX "\<lambda>s. Inl 2"]
    parent_path_pops_or_appends [of "\<lparr>path = [''a'', ''..''], is_absolute = False, platform = UNIX\<rparr>" UNIX "\<lambda>s. Inl 2"]
    parent_path_pops_or_appends [of "\<lparr>path = [''a'', ''.''], is_absolute = False, platform = UNIX\<rparr>" UNIX "\<lambda>s. Inl 2"]
  by simp

text \<open>
  C10. On a relative value with no segment, \<open>parent_path\<close> does not throw and does not
  return the value as it is: it returns the value with the single segment \<open>..\<close>. The
  default-constructed value is such a value.
\<close>

theorem parent_path_no_segments:
  assumes "\<not> is_absolute this" and "path this = []"
  shows "parent_path native resolve this = Inr (this\<lparr>path := [''..'']\<rparr>) \<and>
         parent_path native resolve this \<noteq> Inr this"
proof -
  have result: "parent_path native resolve this = Inr (this\<lparr>path := [''..'']\<rparr>)"
    using assms by (simp add: parent_path_def empty_path_def)
  have "path (this\<lparr>path := [''..'']\<rparr>) \<noteq> path this"
    using assms by simp
  then have "this\<lparr>path := [''..'']\<rparr> \<noteq> this"
    by metis
  with result show ?thesis by simp
qed

theorem parent_path_no_segments_witness:
  "parent_path UNIX (\<lambda>s. Inl 2) (FilePath_default UNIX)
     = Inr \<lparr>path = [''..''], is_absolute = False, platform = UNIX\<rparr> \<and>
   parent_path WINDOWS (\<lambda>s. Inl 2) (FilePath_default WINDOWS)
     = Inr \<lparr>path = [''..''], is_absolute = False, platform = WINDOWS\<rparr>"
  using parent_path_no_segments [of "FilePath_default UNIX" UNIX "\<lambda>s. Inl 2"]
    parent_path_no_segments [of "FilePath_default WINDOWS" WINDOWS "\<lambda>s. Inl 2"]
  by (simp add: FilePath_default_def)

end
